theory Spec2Isabelle
  imports Main "HOL-Library.Char_ord" "HOL-Library.List_Lexorder"
begin

section \<open>Values exchanged between the traversal and the Walker\<close>

text \<open>
  Go's \<^verbatim>\<open>error\<close> interface is \<open>error option\<close>, \<open>None\<close> being \<^verbatim>\<open>nil\<close>.
  \<open>SkipDir\<close> and \<open>SkipAll\<close> are the sentinels of \<^verbatim>\<open>path/filepath\<close>,
  \<open>ErrorString s\<close> is \<^verbatim>\<open>errors.New(s)\<close> and \<open>PathError s\<close> is a failure reported
  by the operating system (\<^verbatim>\<open>os.Lstat\<close>, \<^verbatim>\<open>Readdirnames\<close>).
\<close>

datatype error = SkipDir | SkipAll | ErrorString string | PathError string

definition errors_New :: "string \<Rightarrow> error" where
  "errors_New s = ErrorString s"

text \<open>
  \<^verbatim>\<open>os.FileInfo\<close>: the Walker only ever asks \<^verbatim>\<open>IsDir()\<close>. The interface value is
  \<open>fileinfo option\<close>, \<open>None\<close> being the nil interface.
\<close>

datatype fileinfo = FileInfo (IsDir: bool)

text \<open>\<^verbatim>\<open>type item struct { path string; info os.FileInfo; err error }\<close>\<close>

record item =
  path :: string
  info :: "fileinfo option"
  err :: "error option"

definition zero_item :: item where
  "zero_item = \<lparr>path = [], info = None, err = None\<rparr>"

section \<open>The directory tree seen by the traversal\<close>

text \<open>
  A node for which \<^verbatim>\<open>os.Lstat\<close> succeeds is a \<open>File\<close> (anything that is not a
  directory, a symbolic link included) or a directory \<open>Dir e cs\<close>: \<open>cs\<close> are the
  entries that are in the directory, in the order the operating system holds them, and
  \<open>e\<close> is the error of reading its names, if reading fails. An entry is \<open>Inr n\<close>
  when \<^verbatim>\<open>Lstat\<close> on it gives the node \<open>n\<close>, \<open>Inl e\<close> when \<^verbatim>\<open>Lstat\<close> fails with \<open>e\<close>.
\<close>

datatype node = File | Dir "error option" "(string \<times> (error + node)) list"

fun lstat :: "node \<Rightarrow> fileinfo" where
  "lstat File = FileInfo False"
| "lstat (Dir e cs) = FileInfo True"

section \<open>The traversal goroutine\<close>

text \<open>
  The goroutine started by \<^verbatim>\<open>Walk\<close> touches the channels only inside \<^verbatim>\<open>recv\<close>:
  \<^verbatim>\<open>w.itemch <- item{path, info, err}; return <-w.retch\<close>.
  What is left of it to run is a \<open>producer\<close>: \<open>Yield it k\<close> sends \<open>it\<close>, then
  receives a value \<open>r\<close> and goes on as \<open>k r\<close>; \<open>Done\<close> has left \<^verbatim>\<open>filepath.Walk\<close>
  and closes \<^verbatim>\<open>itemch\<close>.
\<close>

datatype producer = Yield item "error option \<Rightarrow> producer" | Done

definition recv ::
  "string \<Rightarrow> fileinfo option \<Rightarrow> error option \<Rightarrow> (error option \<Rightarrow> producer) \<Rightarrow> producer" where
  "recv p f e k = Yield \<lparr>path = p, info = f, err = e\<rparr> k"

text \<open>
  \<^verbatim>\<open>filepath.Walk\<close> of the standard library (Go 1.16 and later), with \<^verbatim>\<open>w.recv\<close> as
  its callback, in continuation-passing style: the last argument gets the error that the
  Go function returns. \<open>jn\<close> is \<^verbatim>\<open>filepath.Join\<close> on a directory path and a name.
  \<^verbatim>\<open>
  func walk(path string, info fs.FileInfo, walkFn WalkFunc) error {
      if !info.IsDir() { return walkFn(path, info, nil) }
      names, err := readDirNames(path)      // sorted
      err1 := walkFn(path, info, err)
      if err != nil || err1 != nil { return err1 }
      for _, name := range names {
          filename := Join(path, name)
          fileInfo, err := lstat(filename)
          if err != nil {
              if err := walkFn(filename, fileInfo, err); err != nil && err != SkipDir { return err }
          } else {
              err = walk(filename, fileInfo, walkFn)
              if err != nil { if !fileInfo.IsDir() || err != SkipDir { return err } }
          }
      }
      return nil
  }
  \<close>
\<close>

function walk ::
    "(string \<Rightarrow> string \<Rightarrow> string) \<Rightarrow> string \<Rightarrow> node \<Rightarrow> (error option \<Rightarrow> producer) \<Rightarrow> producer"
  and walk_names ::
    "(string \<Rightarrow> string \<Rightarrow> string) \<Rightarrow> string \<Rightarrow> (string \<times> (error + node)) list \<Rightarrow>
       (error option \<Rightarrow> producer) \<Rightarrow> producer"
where
  "walk jn p File k = recv p (Some (FileInfo False)) None k"
| "walk jn p (Dir e cs) k =
     recv p (Some (FileInfo True)) e
       (\<lambda>err1. if e \<noteq> None \<or> err1 \<noteq> None then k err1
               else walk_names jn p (sort_key fst cs) k)"
| "walk_names jn p [] k = k None"
| "walk_names jn p ((nm, Inl e) # rest) k =
     recv (jn p nm) None (Some e)
       (\<lambda>r. if r \<noteq> None \<and> r \<noteq> Some SkipDir then k r else walk_names jn p rest k)"
| "walk_names jn p ((nm, Inr n) # rest) k =
     walk jn (jn p nm) n
       (\<lambda>r. if r \<noteq> None
            then (if \<not> IsDir (lstat n) \<or> r \<noteq> Some SkipDir then k r
                  else walk_names jn p rest k)
            else walk_names jn p rest k)"
  by pat_completeness auto
termination
proof (relation "measure (\<lambda>x. case x of
          Inl (jn, p, n, k) \<Rightarrow> 2 * size n
        | Inr (jn, p, cs, k) \<Rightarrow>
            2 * size_list (size_prod (\<lambda>_. 0) (size_sum (\<lambda>_. 0) size)) cs + 1)",
       goal_cases)
  case 1
  show ?case by simp
next
  case (2 jn p e cs k x)
  have ins: "size_list f (insort_key g y ys) = Suc (f y + size_list f ys)"
    for f :: "(string \<times> (error + node)) \<Rightarrow> nat" and g :: "(string \<times> (error + node)) \<Rightarrow> string"
      and y ys
    by (induction ys) auto
  have "size_list f (sort_key g ys) = size_list f ys"
    for f :: "(string \<times> (error + node)) \<Rightarrow> nat" and g :: "(string \<times> (error + node)) \<Rightarrow> string"
      and ys
    by (induction ys) (auto simp: ins)
  then show ?case by simp
next
  case 3
  then show ?case by simp
next
  case 4
  then show ?case by simp
next
  case 5
  then show ?case by simp
next
  case 6
  then show ?case by simp
qed

text \<open>
  \<^verbatim>\<open>
  func Walk(root string, fn WalkFunc) error {
      info, err := os.Lstat(root)
      if err != nil { err = fn(root, nil, err) } else { err = walk(root, info, fn) }
      if err == SkipDir || err == SkipAll { return nil }
      return err
  }
  \<close>
  The root is \<open>Inl e\<close> when \<^verbatim>\<open>os.Lstat(root)\<close> fails with \<open>e\<close>.
\<close>

definition filepath_Walk ::
  "(string \<Rightarrow> string \<Rightarrow> string) \<Rightarrow> string \<Rightarrow> error + node \<Rightarrow> (error option \<Rightarrow> producer) \<Rightarrow> producer"
where
  "filepath_Walk jn root r k =
     (let ret = (\<lambda>e. k (if e = Some SkipDir \<or> e = Some SkipAll then None else e))
      in case r of Inl e \<Rightarrow> recv root None (Some e) ret
                 | Inr n \<Rightarrow> walk jn root n ret)"

section \<open>The Walker\<close>

text \<open>
  Where the goroutine stands: blocked in \<^verbatim>\<open>w.itemch <- it\<close> (\<open>Sending it k\<close>), blocked
  in \<^verbatim>\<open><-w.retch\<close> (\<open>Receiving k\<close>), or gone after \<^verbatim>\<open>close(w.itemch)\<close>.
\<close>

datatype goroutine =
    Sending item "error option \<Rightarrow> producer"
  | Receiving "error option \<Rightarrow> producer"
  | Closed

fun launch :: "producer \<Rightarrow> goroutine" where
  "launch (Yield it k) = Sending it k"
| "launch Done = Closed"

text \<open>
  \<^verbatim>\<open>type Walker struct { itemch chan item; cur item; ok bool; retch chan error; ret error }\<close>
  The unbuffered channel \<open>itemch\<close> is the goroutine at its sending end; the channel
  \<open>retch\<close>, of capacity one, is the content of its buffer.
\<close>

record walker =
  itemch :: goroutine
  cur :: item
  ok :: bool
  retch :: "error option option"
  ret :: "error option"

text \<open>A call returns, blocks for ever, or panics.\<close>

datatype 'a outcome = Returns 'a | Blocks | Panics

text \<open>
  \<^verbatim>\<open>
  func Walk(root string) *Walker {
      w := new(Walker)
      w.itemch = make(chan item)
      w.retch = make(chan error, 1)
      go func() { filepath.Walk(root, w.recv); close(w.itemch) }()
      return w
  }
  \<close>
\<close>

definition Walk :: "(string \<Rightarrow> string \<Rightarrow> string) \<Rightarrow> string \<Rightarrow> error + node \<Rightarrow> walker" where
  "Walk jn root r =
     \<lparr>itemch = launch (filepath_Walk jn root r (\<lambda>_. Done)),
      cur = zero_item, ok = False, retch = None, ret = None\<rparr>"

text \<open>
  The goroutine runs when the scheduler lets it: blocked in \<^verbatim>\<open><-w.retch\<close> with a value
  in the buffer, it takes the value and runs to its next send or to the close.
\<close>

definition sched :: "walker \<Rightarrow> walker" where
  "sched w =
     (case itemch w of
        Receiving k \<Rightarrow>
          (case retch w of
             Some r \<Rightarrow> w\<lparr>itemch := launch (k r), retch := None\<rparr>
           | None \<Rightarrow> w)
      | _ \<Rightarrow> w)"

text \<open>
  \<^verbatim>\<open>w.retch <- v\<close>: with room in the buffer the value is stored; with the buffer full the
  caller waits for the goroutine to take the value that is there.
\<close>

definition send_retch :: "error option \<Rightarrow> walker \<Rightarrow> walker outcome" where
  "send_retch v w =
     (case retch w of
        None \<Rightarrow> Returns (w\<lparr>retch := Some v\<rparr>)
      | Some u \<Rightarrow>
          (case retch (sched w) of
             None \<Rightarrow> Returns ((sched w)\<lparr>retch := Some v\<rparr>)
           | Some u' \<Rightarrow> Blocks))"

text \<open>
  \<^verbatim>\<open><-w.itemch\<close> with its second result: the caller waits for the goroutine to reach its
  send or the close; a closed channel gives the zero item and \<^verbatim>\<open>false\<close>.
\<close>

definition recv_itemch :: "walker \<Rightarrow> ((item \<times> bool) \<times> walker) outcome" where
  "recv_itemch w =
     (case itemch (sched w) of
        Sending it k \<Rightarrow> Returns ((it, True), (sched w)\<lparr>itemch := Receiving k\<rparr>)
      | Closed \<Rightarrow> Returns ((zero_item, False), sched w)
      | Receiving k \<Rightarrow> Blocks)"

text \<open>
  \<^verbatim>\<open>
  func (w *Walker) Step() bool {
      if w.ok { w.retch <- w.ret }
      w.cur, w.ok = <-w.itemch
      w.ret = nil
      return w.ok
  }
  \<close>
\<close>

definition Step :: "walker \<Rightarrow> (bool \<times> walker) outcome" where
  "Step w =
     (case (if ok w then send_retch (ret w) w else Returns w) of
        Returns w1 \<Rightarrow>
          (case recv_itemch w1 of
             Returns ((it, b), w2) \<Rightarrow> Returns (b, w2\<lparr>cur := it, ok := b, ret := None\<rparr>)
           | Blocks \<Rightarrow> Blocks
           | Panics \<Rightarrow> Panics)
      | Blocks \<Rightarrow> Blocks
      | Panics \<Rightarrow> Panics)"

definition Path :: "walker \<Rightarrow> string" where
  "Path w = path (cur w)"

definition Stat :: "walker \<Rightarrow> fileinfo option" where
  "Stat w = info (cur w)"

definition Err :: "walker \<Rightarrow> error option" where
  "Err w = err (cur w)"

text \<open>
  \<^verbatim>\<open>
  func (w *Walker) SkipDir() {
      if w.ok && w.cur.info.IsDir() { w.ret = filepath.SkipDir }
  }
  \<close>
  A method call on the nil interface \<^verbatim>\<open>w.cur.info\<close> panics.
  The method is \<open>Walker_SkipDir\<close> here: \<open>SkipDir\<close> is the error \<^verbatim>\<open>filepath.SkipDir\<close>.
\<close>

definition Walker_SkipDir :: "walker \<Rightarrow> walker outcome" where
  "Walker_SkipDir w =
     (if ok w
      then (case info (cur w) of
              None \<Rightarrow> Panics
            | Some fi \<Rightarrow> if IsDir fi then Returns (w\<lparr>ret := Some SkipDir\<rparr>) else Returns w)
      else Returns w)"

text \<open>
  \<^verbatim>\<open>
  func (w *Walker) Stop() {
      select {
      case w.retch <- errors.New("stop"):
      default:
      }
  }
  \<close>
\<close>

definition Stop :: "walker \<Rightarrow> walker outcome" where
  "Stop w =
     (case retch w of
        None \<Rightarrow> Returns (w\<lparr>retch := Some (Some (errors_New ''stop''))\<rparr>)
      | Some u \<Rightarrow> Returns w)"

section \<open>Callers\<close>

text \<open>
  A caller's script: the calls it makes, one after the other, with the points where the
  scheduler runs the goroutine in between. \<open>run\<close> gives, for each call of
  \<^verbatim>\<open>Step\<close>, its result and what \<^verbatim>\<open>Path\<close>, \<^verbatim>\<open>Stat\<close> and \<^verbatim>\<open>Err\<close> return after it.
\<close>

datatype call = CallStep | CallSkipDir | CallStop | Schedule

type_synonym observation = "bool \<times> string \<times> fileinfo option \<times> error option"

fun run :: "call list \<Rightarrow> walker \<Rightarrow> (observation list \<times> walker) outcome" where
  "run [] w = Returns ([], w)"
| "run (CallStep # cs) w =
     (case Step w of
        Returns (b, w') \<Rightarrow>
          (case run cs w' of
             Returns (obs, w'') \<Rightarrow> Returns ((b, Path w', Stat w', Err w') # obs, w'')
           | Blocks \<Rightarrow> Blocks
           | Panics \<Rightarrow> Panics)
      | Blocks \<Rightarrow> Blocks
      | Panics \<Rightarrow> Panics)"
| "run (CallSkipDir # cs) w =
     (case Walker_SkipDir w of Returns w' \<Rightarrow> run cs w' | Blocks \<Rightarrow> Blocks | Panics \<Rightarrow> Panics)"
| "run (CallStop # cs) w =
     (case Stop w of Returns w' \<Rightarrow> run cs w' | Blocks \<Rightarrow> Blocks | Panics \<Rightarrow> Panics)"
| "run (Schedule # cs) w = run cs (sched w)"

text \<open>
  The loop \<^verbatim>\<open>for w.Step() { if sk(w) { w.SkipDir() } }\<close> of a caller that skips the
  entries \<open>sk\<close> chooses, with the entries it was given. The loop makes at most \<open>n\<close>
  calls of \<^verbatim>\<open>Step\<close>; \<open>None\<close> says that the last of them still returned true.
\<close>

fun drive :: "(item \<Rightarrow> bool) \<Rightarrow> nat \<Rightarrow> walker \<Rightarrow> item list outcome option" where
  "drive sk 0 w = None"
| "drive sk (Suc n) w =
     (case Step w of
        Returns (b, w1) \<Rightarrow>
          (if \<not> b then Some (Returns [])
           else (case (if sk (cur w1) then Walker_SkipDir w1 else Returns w1) of
                   Returns w2 \<Rightarrow>
                     (case drive sk n w2 of
                        Some (Returns its) \<Rightarrow>
                          Some (Returns (\<lparr>path = Path w1, info = Stat w1, err = Err w1\<rparr> # its))
                      | other \<Rightarrow> other)
                 | Blocks \<Rightarrow> Some Blocks
                 | Panics \<Rightarrow> Some Panics))
      | Blocks \<Rightarrow> Some Blocks
      | Panics \<Rightarrow> Some Panics)"

section \<open>Join of filesystem.go\<close>

text \<open>
  \<^verbatim>\<open>string(b)\<close> of a byte \<open>b\<close> is the UTF-8 encoding of the code point \<open>b\<close>: one byte below
  128, two bytes from 128 on.
\<close>

definition string_of_byte :: "char \<Rightarrow> string" where
  "string_of_byte c =
     (if (of_char c :: nat) < 128 then [c]
      else [char_of (192 + (of_char c :: nat) div 64), char_of (128 + (of_char c :: nat) mod 64)])"

text \<open>\<^verbatim>\<open>strings.Join(elems, sep)\<close>\<close>

fun strings_Join :: "string list \<Rightarrow> string \<Rightarrow> string" where
  "strings_Join [] sep = []"
| "strings_Join [e] sep = e"
| "strings_Join (e # es) sep = e @ sep @ strings_Join es sep"

text \<open>
  The interface \<^verbatim>\<open>FileSystem\<close>; \<^verbatim>\<open>ReadDir\<close> and \<^verbatim>\<open>Lstat\<close> return a result and an error.
\<close>

record FileSystem =
  ReadDir :: "string \<Rightarrow> fileinfo list \<times> error option"
  Lstat :: "string \<Rightarrow> fileinfo option \<times> error option"
  PathSeparator :: char

text \<open>
  \<^verbatim>\<open>
  func Join(fs FileSystem, elem ...string) string {
      sep := string(fs.PathSeparator())
      for i, e := range elem {
          if e != "" { return filepath.Clean(strings.Join(elem[i:], sep)) }
      }
      return ""
  }
  \<close>
  The list argument of \<open>Join_from\<close> is \<^verbatim>\<open>elem[i:]\<close>. \<open>clean\<close> is \<^verbatim>\<open>filepath.Clean\<close> of the
  standard library, a parameter here.
\<close>

fun Join_from :: "(string \<Rightarrow> string) \<Rightarrow> string \<Rightarrow> string list \<Rightarrow> string" where
  "Join_from clean sep [] = []"
| "Join_from clean sep (e # es) =
     (if e \<noteq> [] then clean (strings_Join (e # es) sep) else Join_from clean sep es)"

definition Join :: "(string \<Rightarrow> string) \<Rightarrow> FileSystem \<Rightarrow> string list \<Rightarrow> string" where
  "Join clean fs elem = Join_from clean (string_of_byte (PathSeparator fs)) elem"

section \<open>What a walk is expected to deliver\<close>

text \<open>
  The entries of the subtree at \<open>p\<close> in depth-first pre-order, the entries of a directory
  in the lexical order of their names. A directory whose names cannot be read, or that
  \<open>sk\<close> chooses to skip, contributes its own entry and nothing below it; an entry
  whose \<^verbatim>\<open>Lstat\<close> fails contributes an entry with the error and no metadata.
\<close>

fun listing :: "(item \<Rightarrow> bool) \<Rightarrow> (string \<Rightarrow> string \<Rightarrow> string) \<Rightarrow> string \<Rightarrow> node \<Rightarrow> item list" where
  "listing sk jn p File = [\<lparr>path = p, info = Some (FileInfo False), err = None\<rparr>]"
| "listing sk jn p (Dir e cs) =
     \<lparr>path = p, info = Some (FileInfo True), err = e\<rparr> #
     (if e \<noteq> None \<or> sk \<lparr>path = p, info = Some (FileInfo True), err = e\<rparr> then []
      else concat (map (\<lambda>(nm, c). case c of
                          Inl e' \<Rightarrow> [\<lparr>path = jn p nm, info = None, err = Some e'\<rparr>]
                        | Inr n \<Rightarrow> listing sk jn (jn p nm) n)
                    (sort_key fst cs)))"

definition child_listing ::
  "(item \<Rightarrow> bool) \<Rightarrow> (string \<Rightarrow> string \<Rightarrow> string) \<Rightarrow> string \<Rightarrow> string \<times> (error + node) \<Rightarrow> item list"
where
  "child_listing sk jn p = (\<lambda>(nm, c). case c of
                          Inl e' \<Rightarrow> [\<lparr>path = jn p nm, info = None, err = Some e'\<rparr>]
                        | Inr n \<Rightarrow> listing sk jn (jn p nm) n)"

definition root_listing ::
  "(item \<Rightarrow> bool) \<Rightarrow> (string \<Rightarrow> string \<Rightarrow> string) \<Rightarrow> string \<Rightarrow> error + node \<Rightarrow> item list" where
  "root_listing sk jn root r =
     (case r of Inl e \<Rightarrow> [\<lparr>path = root, info = None, err = Some e\<rparr>]
              | Inr n \<Rightarrow> listing sk jn root n)"

text \<open>
  The entries of a walk in which nothing is skipped, each with the entries of the
  directories above it, the nearest first.
\<close>

fun with_ancestors ::
  "(string \<Rightarrow> string \<Rightarrow> string) \<Rightarrow> item list \<Rightarrow> string \<Rightarrow> node \<Rightarrow> (item list \<times> item) list" where
  "with_ancestors jn anc p File = [(anc, \<lparr>path = p, info = Some (FileInfo False), err = None\<rparr>)]"
| "with_ancestors jn anc p (Dir e cs) =
     (anc, \<lparr>path = p, info = Some (FileInfo True), err = e\<rparr>) #
     (if e \<noteq> None then []
      else concat (map (\<lambda>(nm, c). case c of
                          Inl e' \<Rightarrow> [(\<lparr>path = p, info = Some (FileInfo True), err = e\<rparr> # anc,
                                     \<lparr>path = jn p nm, info = None, err = Some e'\<rparr>)]
                        | Inr n \<Rightarrow> with_ancestors jn (\<lparr>path = p, info = Some (FileInfo True), err = e\<rparr> # anc) (jn p nm) n)
                    (sort_key fst cs)))"

definition root_with_ancestors ::
  "(string \<Rightarrow> string \<Rightarrow> string) \<Rightarrow> string \<Rightarrow> error + node \<Rightarrow> (item list \<times> item) list" where
  "root_with_ancestors jn root r =
     (case r of Inl e \<Rightarrow> [([], \<lparr>path = root, info = None, err = Some e\<rparr>)]
              | Inr n \<Rightarrow> with_ancestors jn [] root n)"

text \<open>An entry is kept when the caller skipped none of the directories above it.\<close>

definition kept :: "(item \<Rightarrow> bool) \<Rightarrow> (item list \<times> item) \<Rightarrow> bool" where
  "kept sk = (\<lambda>(anc, it). \<not> list_ex sk anc)"








text \<open>
  The value the loop of \<open>drive\<close> leaves in \<^verbatim>\<open>w.ret\<close> for an entry, and the entries a
  producer sends when each of them is answered with that value.
\<close>

definition directive :: "(item \<Rightarrow> bool) \<Rightarrow> item \<Rightarrow> error option" where
  "directive sk it = (if sk it \<and> info it = Some (FileInfo True) then Some SkipDir else None)"

primrec ptrace :: "(item \<Rightarrow> bool) \<Rightarrow> producer \<Rightarrow> item list" where
  "ptrace sk (Yield it k) = it # ptrace sk (k (directive sk it))"
| "ptrace sk Done = []"

text \<open>What a script observes, without the Walker it leaves.\<close>

definition observe :: "call list \<Rightarrow> walker \<Rightarrow> observation list outcome" where
  "observe cs w =
     (case run cs w of Returns (obs, w') \<Rightarrow> Returns obs | Blocks \<Rightarrow> Blocks | Panics \<Rightarrow> Panics)"

text \<open>
  A producer that gives up when it is answered with the error of Stop: after any of its
  entries that error makes it finish.
\<close>

primrec halts :: "producer \<Rightarrow> bool" where
  "halts (Yield it k) = (k (Some (errors_New ''stop'')) = Done \<and> (\<forall>r. halts (k r)))"
| "halts Done = True"

text \<open>
  A Walker between two calls of Step, the last of which returned true, with nothing in
  the buffer of \<^verbatim>\<open>retch\<close>.
\<close>

definition stoppable :: "walker \<Rightarrow> bool" where
  "stoppable w \<longleftrightarrow>
     ok w \<and> retch w = None \<and>
     (\<exists>k. itemch w = Receiving k \<and> k (Some (errors_New ''stop'')) = Done \<and> (\<forall>r. halts (k r)))"

section \<open>Concrete inputs\<close>

text \<open>
  The directory path, the separator \<^verbatim>\<open>/\<close> and the name. \<^verbatim>\<open>filepath.Join\<close> gives this
  for a file name and a directory path that is clean and is neither \<^verbatim>\<open>.\<close> nor \<^verbatim>\<open>/\<close>,
  such as \<^verbatim>\<open>d\<close> and the paths below it; it gives something else for other directory
  paths.
\<close>

definition slash_join :: "string \<Rightarrow> string \<Rightarrow> string" where
  "slash_join p n = p @ ''/'' @ n"


text \<open>A directory holding the file \<^verbatim>\<open>b\<close> and the directory \<^verbatim>\<open>a\<close>, which holds the file \<^verbatim>\<open>x\<close>.\<close>

definition example_tree :: node where
  "example_tree =
     Dir None [(''b'', Inr File), (''a'', Inr (Dir None [(''x'', Inr File)]))]"

text \<open>
  The same directory when \<^verbatim>\<open>a\<close> cannot be opened, and with an entry \<^verbatim>\<open>c\<close> on which
  \<^verbatim>\<open>Lstat\<close> fails.
\<close>

definition broken_tree :: node where
  "broken_tree =
     Dir None [(''c'', Inl (PathError ''lstat d/c: permission denied'')),
               (''b'', Inr File),
               (''a'', Inr (Dir (Some (PathError ''open d/a: permission denied'')) [(''x'', Inr File)]))]"

text \<open>The caller that skips the directory \<^verbatim>\<open>d/a\<close>.\<close>

definition skip_a :: "item \<Rightarrow> bool" where
  "skip_a it \<longleftrightarrow> path it = ''d/a'' \<and> info it \<noteq> None"

text \<open>The Walker of the single file \<^verbatim>\<open>d\<close> after its first Step, and after its second.\<close>

definition at_d :: walker where
  "at_d = \<lparr>itemch = Receiving (\<lambda>_. Done),
           cur = \<lparr>path = ''d'', info = Some (FileInfo False), err = None\<rparr>,
           ok = True, retch = None, ret = None\<rparr>"

definition closed_walker :: walker where
  "closed_walker = \<lparr>itemch = Closed, cur = zero_item, ok = False, retch = None, ret = None\<rparr>"

definition os_fs :: FileSystem where
  "os_fs = \<lparr>ReadDir = (\<lambda>_. ([], None)), Lstat = (\<lambda>_. (None, None)), PathSeparator = CHR ''/''\<rparr>"

section \<open>The fresh Walker\<close>

text \<open>
  C10. Before the first call of Step on the Walker that Walk returns, Path returns the
  empty string, Stat returns nil and Err returns nil, whatever the root and the tree.
\<close>

theorem fresh_walker_accessors:
  "Path (Walk jn root r) = [] \<and> Stat (Walk jn root r) = None \<and> Err (Walk jn root r) = None"
  by (simp add: Path_def Stat_def Err_def Walk_def zero_item_def)

theorem fresh_walker_accessors_witness:
  "Path (Walk slash_join ''d'' (Inr example_tree)) = [] \<and>
   Stat (Walk slash_join ''d'' (Inr example_tree)) = None \<and>
   Err (Walk slash_join ''d'' (Inr example_tree)) = None"
  by (rule fresh_walker_accessors)

section \<open>Join\<close>

lemma Join_from_all_empty: "\<forall>e \<in> set elem. e = [] \<Longrightarrow> Join_from clean sep elem = []"
  by (induction elem) simp_all

text \<open>
  C9. For every FileSystem and every list of elements, Join returns the empty string when
  every element is the empty string (the empty list included), and an empty string put in
  front of the elements does not change the result.
\<close>

theorem Join_empty_elements:
  "((\<forall>e \<in> set elem. e = []) \<longrightarrow> Join clean fs elem = []) \<and>
   Join clean fs ([] # elem) = Join clean fs elem"
  by (simp add: Join_def Join_from_all_empty)

theorem Join_empty_elements_witness:
  "Join (\<lambda>s. s) os_fs ['''', ''''] = '''' \<and>
   Join (\<lambda>s. s) os_fs ['''', ''a'', ''b''] = Join (\<lambda>s. s) os_fs [''a'', ''b''] \<and>
   Join (\<lambda>s. s) os_fs [''a'', ''b''] = ''a/b''"
proof -
  have "\<forall>e \<in> set ['''', '''']. e = []" by simp
  with Join_empty_elements[of "['''', '''']" "\<lambda>s. s" os_fs]
  have "Join (\<lambda>s. s) os_fs ['''', ''''] = ''''" by blast
  moreover have "Join (\<lambda>s. s) os_fs ['''', ''a'', ''b''] = Join (\<lambda>s. s) os_fs [''a'', ''b'']"
    using Join_empty_elements[of "[''a'', ''b'']" "\<lambda>s. s" os_fs] by blast
  moreover have "Join (\<lambda>s. s) os_fs [''a'', ''b''] = ''a/b''"
    by (simp add: Join_def os_fs_def string_of_byte_def)
  ultimately show ?thesis by blast
qed

section \<open>Scheduling\<close>

text \<open>
  Step waits for the goroutine where it needs it, so its result does not depend on
  whether the goroutine was scheduled before the call.
\<close>

lemma launch_not_Receiving: "launch P \<noteq> Receiving k"
  by (cases P) simp_all

lemma sched_idem: "sched (sched w) = sched w"
  by (auto simp: sched_def launch_not_Receiving split: goroutine.splits option.splits)

lemma recv_itemch_sched: "recv_itemch (sched w) = recv_itemch w"
  unfolding recv_itemch_def sched_idem by (rule refl)

lemma send_retch_sched: "send_retch v (sched w) = send_retch v w"
  by (auto simp: send_retch_def sched_idem sched_def launch_not_Receiving
      split: goroutine.splits option.splits)

lemma Step_sched: "Step (sched w) = Step w"
proof -
  have "ok (sched w) = ok w" "ret (sched w) = ret w"
    by (simp_all add: sched_def split: goroutine.splits option.splits)
  then show ?thesis
    by (cases "ok w") (simp_all add: Step_def send_retch_sched recv_itemch_sched)
qed

lemma drive_sched: "drive sk n (sched w) = drive sk n w"
  by (cases n) (simp_all add: Step_sched)

section \<open>The end of a walk\<close>

lemma Step_False:
  assumes "Step w = Returns (False, w')"
  shows "itemch w' = Closed \<and> \<not> ok w' \<and> cur w' = zero_item"
proof -
  from assms obtain w1 it w2 where r: "recv_itemch w1 = Returns ((it, False), w2)"
    and w': "w' = w2\<lparr>cur := it, ok := False, ret := None\<rparr>"
    by (auto simp: Step_def split: outcome.splits if_splits)
  from r have "itemch w2 = Closed \<and> it = zero_item"
    by (auto simp: recv_itemch_def split: goroutine.splits)
  with w' show ?thesis by simp
qed

lemma Step_exhausted:
  assumes "itemch w = Closed" "\<not> ok w"
  shows "Step w = Returns (False, w\<lparr>cur := zero_item, ok := False, ret := None\<rparr>)"
  using assms by (simp add: Step_def recv_itemch_def sched_def)

lemma run_exhausted:
  "itemch w = Closed \<Longrightarrow> \<not> ok w \<Longrightarrow>
   \<exists>w'. run cs w = Returns (replicate (count_list cs CallStep) (False, [], None, None), w') \<and>
        itemch w' = Closed \<and> \<not> ok w' \<and> (cur w = zero_item \<longrightarrow> cur w' = zero_item)"
proof (induction cs arbitrary: w)
  case Nil
  then show ?case by simp
next
  case (Cons c cs)
  show ?case
  proof (cases c)
    case CallStep
    let ?w1 = "w\<lparr>cur := zero_item, ok := False, ret := None\<rparr>"
    have st: "Step w = Returns (False, ?w1)" using Cons.prems by (rule Step_exhausted)
    from Cons.IH[of ?w1] Cons.prems obtain w' where
      "run cs ?w1 = Returns (replicate (count_list cs CallStep) (False, [], None, None), w')"
      "itemch w' = Closed" "\<not> ok w'" "cur w' = zero_item" by auto
    then show ?thesis
      by (simp add: CallStep st Path_def Stat_def Err_def zero_item_def)
  next
    case CallSkipDir
    have "Walker_SkipDir w = Returns w" using Cons.prems by (simp add: Walker_SkipDir_def)
    then show ?thesis using Cons.IH[of w] Cons.prems by (simp add: CallSkipDir)
  next
    case CallStop
    have "\<exists>w1. Stop w = Returns w1 \<and> itemch w1 = Closed \<and> \<not> ok w1 \<and> cur w1 = cur w"
      using Cons.prems by (cases "retch w") (simp_all add: Stop_def)
    then obtain w1 where st: "Stop w = Returns w1" and w1: "itemch w1 = Closed" "\<not> ok w1" "cur w1 = cur w"
      by blast
    from Cons.IH[OF w1(1,2)] w1(3) show ?thesis by (simp add: CallStop st)
  next
    case Schedule
    have "sched w = w" using Cons.prems by (simp add: sched_def)
    then show ?thesis using Cons.IH[of w] Cons.prems by (simp add: Schedule)
  qed
qed

lemma at_d_reached:
  "Step (Walk slash_join ''d'' (Inr File)) = Returns (True, at_d)"
  by (simp add: Walk_def filepath_Walk_def recv_def Step_def recv_itemch_def sched_def at_d_def)

lemma at_d_Step: "Step at_d = Returns (False, closed_walker)"
  by (simp add: at_d_def closed_walker_def Step_def send_retch_def recv_itemch_def sched_def)

text \<open>
  C4. Once a call of Step has returned false, every later call of Step returns false
  too, whatever the caller does in between (SkipDir, Stop) and whenever the goroutine is
  scheduled.
\<close>

theorem exhaustion_final:
  assumes "Step w = Returns (False, w')"
  shows "\<exists>w''. run cs w' = Returns (replicate (count_list cs CallStep) (False, [], None, None), w'')"
proof -
  from Step_False[OF assms] have "itemch w' = Closed" "\<not> ok w'" by simp_all
  from run_exhausted[OF this, of cs] show ?thesis by blast
qed

theorem exhaustion_final_witness:
  "\<exists>w''. run [CallStep, CallStop, CallSkipDir, Schedule, CallStep] closed_walker =
          Returns ([(False, [], None, None), (False, [], None, None)], w'')"
proof -
  from exhaustion_final[OF at_d_Step, of "[CallStep, CallStop, CallSkipDir, Schedule, CallStep]"]
  show ?thesis by (simp add: numeral_2_eq_2)
qed

text \<open>
  C6, as the claim states it, fails: after the Step that returns false, Path, Stat and Err
  do not return the values of the last entry delivered. On the single file \<^verbatim>\<open>d\<close> the
  first Step returns true with Path \<^verbatim>\<open>d\<close>; the second returns false, and Path is then
  the empty string and Stat is nil.
\<close>

theorem stale_accessors_counterexample:
  "observe [CallStep, CallStep] (Walk slash_join ''d'' (Inr File)) =
     Returns [(True, ''d'', Some (FileInfo False), None), (False, [], None, None)]"
  by (simp add: observe_def Walk_def filepath_Walk_def recv_def Step_def send_retch_def
        recv_itemch_def sched_def Path_def Stat_def Err_def zero_item_def)

text \<open>
  C6, amended. After Step has returned false, Path returns the empty string, Stat returns
  nil and Err returns nil (the receive from the closed channel stores the zero item), and
  they keep returning these whatever is called afterwards.
\<close>

theorem exhausted_accessors_zero:
  assumes "Step w = Returns (False, w')"
  shows "\<exists>obs w''. run cs w' = Returns (obs, w'') \<and>
           Path w'' = [] \<and> Stat w'' = None \<and> Err w'' = None"
proof -
  from Step_False[OF assms] have c: "itemch w' = Closed" "\<not> ok w'" and z: "cur w' = zero_item"
    by simp_all
  from run_exhausted[OF c, of cs] z obtain w'' where
    "run cs w' = Returns (replicate (count_list cs CallStep) (False, [], None, None), w'')"
    "cur w'' = zero_item" by auto
  then show ?thesis by (auto simp: Path_def Stat_def Err_def zero_item_def)
qed

theorem exhausted_accessors_zero_witness:
  "Path at_d = ''d'' \<and>
   (\<exists>w'. Step at_d = Returns (False, w') \<and> Path w' = [] \<and> Stat w' = None \<and> Err w' = None)"
proof -
  from exhausted_accessors_zero[OF at_d_Step, of "[]"] at_d_Step show ?thesis
    by (simp add: at_d_def Path_def)
qed

section \<open>Stop and SkipDir\<close>

text \<open>
  C2. The claim says that after Stop every call of Step returns false, also when Stop
  comes before the first Step. The code does not do that: the goroutine sends the entry
  of the root before it ever reads \<^verbatim>\<open>retch\<close>, so the first Step after such a Stop
  returns true and delivers the root, for every root and every tree.
\<close>

theorem stop_before_first_step:
  "\<exists>w1 w2. Stop (Walk jn root r) = Returns w1 \<and> Step w1 = Returns (True, w2) \<and> Path w2 = root"
proof -
  obtain it k where l: "filepath_Walk jn root r (\<lambda>_. Done) = Yield it k" and p: "path it = root"
  proof (cases r)
    case (Inl e)
    then show ?thesis using that by (simp add: filepath_Walk_def recv_def)
  next
    case (Inr n)
    then show ?thesis using that by (cases n) (simp_all add: filepath_Walk_def recv_def)
  qed
  show ?thesis
    by (simp add: Stop_def Walk_def l Step_def recv_itemch_def sched_def Path_def p)
qed

text \<open>
  After a Step that returned true, a Stop, the goroutine taking that value, and a second
  Stop, the buffer of \<^verbatim>\<open>retch\<close> is full and nobody is left to empty it: the next Step
  blocks in \<^verbatim>\<open>w.retch <- w.ret\<close>.
\<close>

lemma double_stop_blocks:
  "run [CallStep, CallStop, Schedule, CallStop, CallStep] (Walk jn root r) = Blocks"
proof -
  obtain it k where l: "filepath_Walk jn root r (\<lambda>_. Done) = Yield it k"
    and k: "k (Some (errors_New ''stop'')) = Done"
  proof (cases r)
    case (Inl e)
    then show ?thesis using that by (simp add: filepath_Walk_def recv_def errors_New_def)
  next
    case (Inr n)
    then show ?thesis using that by (cases n) (simp_all add: filepath_Walk_def recv_def errors_New_def)
  qed
  show ?thesis
    by (simp add: Stop_def Walk_def l k Step_def send_retch_def recv_itemch_def sched_def)
qed

text \<open>
  C5. The claim says that SkipDir is a no-op on an entry that carries an error and has no
  metadata. The code does not do that: when \<^verbatim>\<open>Lstat\<close> of the root fails, the first Step
  returns true with Stat nil, and SkipDir then calls \<^verbatim>\<open>IsDir\<close> on the nil interface.
\<close>

theorem SkipDir_nil_info_panics:
  "\<exists>w'. Step (Walk jn root (Inl e)) = Returns (True, w') \<and> Stat w' = None \<and> Err w' = Some e \<and>
        Walker_SkipDir w' = Panics"
  by (simp add: Walk_def filepath_Walk_def recv_def Step_def recv_itemch_def sched_def
        Stat_def Err_def Walker_SkipDir_def)

text \<open>The other cases of the claim hold: before any Step, and on a file.\<close>

lemma SkipDir_not_dir_noop:
  "\<not> ok w \<or> (\<exists>fi. info (cur w) = Some fi \<and> \<not> IsDir fi) \<Longrightarrow> Walker_SkipDir w = Returns w"
  by (auto simp: Walker_SkipDir_def)

text \<open>
  C8. Stop returns at once, also when called again, and SkipDir never blocks; both leave
  the current entry and its validity flag as they are, and so does the scheduling of the
  goroutine. Path, Stat and Err are functions of the current entry alone. Step does change
  the current entry (the first Step makes it valid, with the root's path), and Step can
  block.
\<close>

theorem only_Step_blocks_or_advances:
  "(\<exists>w'. Stop w = Returns w' \<and> cur w' = cur w \<and> ok w' = ok w \<and>
         (\<exists>w''. Stop w' = Returns w'' \<and> cur w'' = cur w \<and> ok w'' = ok w)) \<and>
   Walker_SkipDir w \<noteq> Blocks \<and>
   (\<forall>w'. Walker_SkipDir w = Returns w' \<longrightarrow> cur w' = cur w \<and> ok w' = ok w) \<and>
   cur (sched w) = cur w \<and> ok (sched w) = ok w \<and>
   Path w = path (cur w) \<and> Stat w = info (cur w) \<and> Err w = err (cur w) \<and>
   (\<exists>w'. Step (Walk jn root r) = Returns (True, w') \<and> ok w' \<noteq> ok (Walk jn root r) \<and> Path w' = root) \<and>
   run [CallStep, CallStop, Schedule, CallStop, CallStep] (Walk jn root r) = Blocks"
proof -
  have acc: "Path w = path (cur w) \<and> Stat w = info (cur w) \<and> Err w = err (cur w)"
    by (simp add: Path_def Stat_def Err_def)
  have stop: "\<exists>w'. Stop w = Returns w' \<and> cur w' = cur w \<and> ok w' = ok w \<and>
         (\<exists>w''. Stop w' = Returns w'' \<and> cur w'' = cur w \<and> ok w'' = ok w)"
    by (cases "retch w") (simp_all add: Stop_def)
  have skip: "Walker_SkipDir w \<noteq> Blocks \<and>
      (\<forall>w'. Walker_SkipDir w = Returns w' \<longrightarrow> cur w' = cur w \<and> ok w' = ok w)"
    by (auto simp: Walker_SkipDir_def split: option.splits if_splits)
  have sch: "cur (sched w) = cur w \<and> ok (sched w) = ok w"
    by (simp add: sched_def split: goroutine.splits option.splits)
  obtain it k where l: "filepath_Walk jn root r (\<lambda>_. Done) = Yield it k" and p: "path it = root"
  proof (cases r)
    case (Inl e)
    then show ?thesis using that by (simp add: filepath_Walk_def recv_def)
  next
    case (Inr n)
    then show ?thesis using that by (cases n) (simp_all add: filepath_Walk_def recv_def)
  qed
  have step: "\<exists>w'. Step (Walk jn root r) = Returns (True, w') \<and> ok w' \<noteq> ok (Walk jn root r) \<and> Path w' = root"
    by (simp add: Walk_def l Step_def recv_itemch_def sched_def Path_def p)
  show ?thesis using stop skip sch acc step double_stop_blocks by blast
qed

theorem only_Step_blocks_or_advances_witness:
  "Stop at_d = Returns (at_d\<lparr>retch := Some (Some (ErrorString ''stop''))\<rparr>) \<and>
   Walker_SkipDir at_d = Returns at_d \<and>
   run [CallStep, CallStop, Schedule, CallStop, CallStep] (Walk slash_join ''d'' (Inr File)) = Blocks"
proof -
  have "Stop at_d = Returns (at_d\<lparr>retch := Some (Some (ErrorString ''stop''))\<rparr>)"
    by (simp add: Stop_def at_d_def errors_New_def)
  moreover have "Walker_SkipDir at_d = Returns at_d"
    by (simp add: Walker_SkipDir_def at_d_def)
  ultimately show ?thesis
    using only_Step_blocks_or_advances[of at_d slash_join "''d''" "Inr File"] by simp
qed

section \<open>The entries a walk delivers\<close>

lemma directive_nodir [simp]:
  "directive sk \<lparr>path = p, info = None, err = e\<rparr> = None"
  "directive sk \<lparr>path = p, info = Some (FileInfo False), err = e\<rparr> = None"
  by (simp_all add: directive_def)

lemma directive_dir [simp]:
  "directive sk \<lparr>path = p, info = Some (FileInfo True), err = e\<rparr> =
     (if sk \<lparr>path = p, info = Some (FileInfo True), err = e\<rparr> then Some SkipDir else None)"
  by (simp add: directive_def)

lemma ptrace_walk:
  "ptrace sk (walk jn p n k) =
     listing sk jn p n @ ptrace sk (k (directive sk \<lparr>path = p, info = Some (lstat n), err = (case n of File \<Rightarrow> None | Dir e cs \<Rightarrow> e)\<rparr>))"
  "ptrace sk (walk_names jn p cs k) =
     concat (map (child_listing sk jn p) cs) @ ptrace sk (k None)"
proof (induction jn p n k and jn p cs k rule: walk_walk_names.induct)
  case (1 jn p k)
  show ?case by (simp add: recv_def)
next
  case (2 jn p e cs k)
  show ?case
  proof (cases "e \<noteq> None \<or> sk \<lparr>path = p, info = Some (FileInfo True), err = e\<rparr>")
    case True
    then show ?thesis by (auto simp: recv_def)
  next
    case False
    then have "ptrace sk (walk_names jn p (sort_key fst cs) k) =
        concat (map (child_listing sk jn p) (sort_key fst cs)) @ ptrace sk (k None)"
      using 2[of None] by simp
    with False show ?thesis by (simp add: recv_def child_listing_def)
  qed
next
  case (3 jn p k)
  show ?case by simp
next
  case (4 jn p nm e rest k)
  from 4[of None] show ?case by (simp add: recv_def child_listing_def)
next
  case (5 jn p nm n rest k)
  have rest: "ptrace sk (walk_names jn p rest k) =
        concat (map (child_listing sk jn p) rest) @ ptrace sk (k None)"
    using 5(2)[of None] by simp
  let ?K = "\<lambda>r. if r \<noteq> None
            then (if \<not> IsDir (lstat n) \<or> r \<noteq> Some SkipDir then k r
                  else walk_names jn p rest k)
            else walk_names jn p rest k"
  let ?d = "directive sk \<lparr>path = jn p nm, info = Some (lstat n),
              err = (case n of File \<Rightarrow> None | Dir e cs \<Rightarrow> e)\<rparr>"
  have K: "?K ?d = walk_names jn p rest k"
    by (cases n) simp_all
  have "ptrace sk (walk_names jn p ((nm, Inr n) # rest) k) =
          listing sk jn (jn p nm) n @ ptrace sk (?K ?d)"
    using 5(3) by simp
  also have "\<dots> = listing sk jn (jn p nm) n @ ptrace sk (walk_names jn p rest k)"
    by (simp only: K)
  finally show ?case
    by (simp add: rest child_listing_def)
qed

lemma ptrace_filepath_Walk:
  "ptrace sk (filepath_Walk jn root r (\<lambda>_. Done)) = root_listing sk jn root r"
  by (cases r) (simp_all add: filepath_Walk_def root_listing_def recv_def ptrace_walk)

lemma Step_Receiving:
  assumes "itemch w = Receiving k" "ok w" "retch w = None"
  shows "Step w =
     (case k (ret w) of
        Yield it k' \<Rightarrow> Returns (True, w\<lparr>itemch := Receiving k', cur := it, ok := True, retch := None, ret := None\<rparr>)
      | Done \<Rightarrow> Returns (False, w\<lparr>itemch := Closed, cur := zero_item, ok := False, retch := None, ret := None\<rparr>))"
  using assms
  by (cases "k (ret w)") (simp_all add: Step_def send_retch_def recv_itemch_def sched_def)

lemma Step_launch:
  assumes "itemch w = launch P" "\<not> ok w"
  shows "Step w =
     (case P of
        Yield it k' \<Rightarrow> Returns (True, w\<lparr>itemch := Receiving k', cur := it, ok := True, ret := None\<rparr>)
      | Done \<Rightarrow> Returns (False, w\<lparr>cur := zero_item, ok := False, ret := None\<rparr>))"
  using assms
  by (cases P) (simp_all add: Step_def recv_itemch_def sched_def)

lemma SkipDir_directive:
  assumes "ok w" "sk (cur w) \<longrightarrow> info (cur w) \<noteq> None" "ret w = None"
  shows "(if sk (cur w) then Walker_SkipDir w else Returns w) = Returns (w\<lparr>ret := directive sk (cur w)\<rparr>)"
proof (cases "sk (cur w)")
  case False
  with assms show ?thesis by (simp add: directive_def)
next
  case True
  with assms obtain fi where fi: "info (cur w) = Some fi" by auto
  show ?thesis
    using True fi assms(1,3) by (cases fi) (auto simp: Walker_SkipDir_def directive_def)
qed

lemma drive_Suc_True:
  assumes "Step w = Returns (True, w1)"
    and "(if sk (cur w1) then Walker_SkipDir w1 else Returns w1) = Returns w2"
    and "drive sk m w2 = Some (Returns its)"
  shows "drive sk (Suc m) w = Some (Returns (cur w1 # its))"
  using assms by (simp add: Path_def Stat_def Err_def)

lemma drive_Suc_False:
  assumes "Step w = Returns (False, w1)"
  shows "drive sk (Suc m) w = Some (Returns [])"
  using assms by simp

lemma drive_Receiving:
  assumes sk: "\<forall>it. sk it \<longrightarrow> info it \<noteq> None"
  shows "itemch w = Receiving k \<Longrightarrow> ok w \<Longrightarrow> retch w = None \<Longrightarrow> k (ret w) = P \<Longrightarrow>
         length (ptrace sk P) < n \<Longrightarrow> drive sk n w = Some (Returns (ptrace sk P))"
proof (induction P arbitrary: w k n)
  case Done
  then obtain m where n: "n = Suc m" by (cases n) auto
  have "Step w = Returns (False, w\<lparr>itemch := Closed, cur := zero_item, ok := False, retch := None, ret := None\<rparr>)"
    using Done by (simp add: Step_Receiving)
  then show ?case unfolding n by (simp only: drive_Suc_False ptrace.simps)
next
  case (Yield it k')
  then obtain m where n: "n = Suc m" by (cases n) auto
  let ?w1 = "w\<lparr>itemch := Receiving k', cur := it, ok := True, retch := None, ret := None\<rparr>"
  have st: "Step w = Returns (True, ?w1)"
    using Yield.prems by (simp add: Step_Receiving)
  have sd: "(if sk (cur ?w1) then Walker_SkipDir ?w1 else Returns ?w1) =
        Returns (?w1\<lparr>ret := directive sk (cur ?w1)\<rparr>)"
    by (rule SkipDir_directive) (use sk in auto)
  let ?w2 = "?w1\<lparr>ret := directive sk (cur ?w1)\<rparr>"
  have "drive sk m ?w2 = Some (Returns (ptrace sk (k' (directive sk it))))"
    by (rule Yield.IH[where k = k']) (use Yield.prems n in auto)
  then have "drive sk (Suc m) w = Some (Returns (cur ?w1 # ptrace sk (k' (directive sk it))))"
    by (rule drive_Suc_True[where sk = sk, OF st sd])
  then show ?case
    unfolding n by simp
qed

lemma drive_launch:
  assumes sk: "\<forall>it. sk it \<longrightarrow> info it \<noteq> None"
    and w: "itemch w = launch P" "\<not> ok w" "retch w = None"
    and n: "length (ptrace sk P) < n"
  shows "drive sk n w = Some (Returns (ptrace sk P))"
proof (cases P)
  case Done
  from n obtain m where m: "n = Suc m" by (cases n) auto
  have "Step w = Returns (False, w\<lparr>cur := zero_item, ok := False, ret := None\<rparr>)"
    using Step_launch[OF w(1,2)] Done by simp
  then show ?thesis unfolding m Done by (simp only: drive_Suc_False ptrace.simps)
next
  case (Yield it k')
  from n obtain m where m: "n = Suc m" by (cases n) auto
  let ?w1 = "w\<lparr>itemch := Receiving k', cur := it, ok := True, ret := None\<rparr>"
  have st: "Step w = Returns (True, ?w1)"
    using Step_launch[OF w(1,2)] Yield by simp
  have sd: "(if sk (cur ?w1) then Walker_SkipDir ?w1 else Returns ?w1) =
        Returns (?w1\<lparr>ret := directive sk (cur ?w1)\<rparr>)"
    by (rule SkipDir_directive) (use sk in auto)
  let ?w2 = "?w1\<lparr>ret := directive sk (cur ?w1)\<rparr>"
  have "drive sk m ?w2 = Some (Returns (ptrace sk (k' (directive sk it))))"
    by (rule drive_Receiving[OF sk, where k = k']) (use w n m Yield in auto)
  then have "drive sk (Suc m) w = Some (Returns (cur ?w1 # ptrace sk (k' (directive sk it))))"
    by (rule drive_Suc_True[where sk = sk, OF st sd])
  then show ?thesis
    unfolding m Yield by simp
qed

lemma drive_Walk:
  assumes "\<forall>it. sk it \<longrightarrow> info it \<noteq> None"
    and "length (root_listing sk jn root r) < n"
  shows "drive sk n (Walk jn root r) = Some (Returns (root_listing sk jn root r))"
proof -
  have "drive sk n (Walk jn root r) = Some (Returns (ptrace sk (filepath_Walk jn root r (\<lambda>_. Done))))"
    by (rule drive_launch[OF assms(1)]) (use assms(2) in \<open>simp_all add: Walk_def ptrace_filepath_Walk\<close>)
  then show ?thesis by (simp add: ptrace_filepath_Walk)
qed

text \<open>
  C7. A failure to read the metadata or the listing of a node is attached to the entry of
  that node, which Step delivers returning true as for any other node; it never makes Step
  return false. The caller's loop, with nothing skipped, is given every entry of
  \<open>root_listing\<close>, in that order, before Step returns false: an entry whose \<^verbatim>\<open>Lstat\<close>
  failed with its error and no metadata, a directory that cannot be read with its error
  and nothing of what it holds, and the entries that follow them.
\<close>

theorem access_errors_are_entries:
  assumes "length (root_listing (\<lambda>_. False) jn root r) < n"
  shows "drive (\<lambda>_. False) n (Walk jn root r) =
           Some (Returns (root_listing (\<lambda>_. False) jn root r))"
  by (rule drive_Walk) (simp_all add: assms)

theorem access_errors_are_entries_witness:
  "drive (\<lambda>_. False) 5 (Walk slash_join ''d'' (Inr broken_tree)) =
     Some (Returns
      [\<lparr>path = ''d'', info = Some (FileInfo True), err = None\<rparr>,
       \<lparr>path = ''d/a'', info = Some (FileInfo True),
          err = Some (PathError ''open d/a: permission denied'')\<rparr>,
       \<lparr>path = ''d/b'', info = Some (FileInfo False), err = None\<rparr>,
       \<lparr>path = ''d/c'', info = None, err = Some (PathError ''lstat d/c: permission denied'')\<rparr>])"
proof -
  have l: "root_listing (\<lambda>_. False) slash_join ''d'' (Inr broken_tree) =
      [\<lparr>path = ''d'', info = Some (FileInfo True), err = None\<rparr>,
       \<lparr>path = ''d/a'', info = Some (FileInfo True),
          err = Some (PathError ''open d/a: permission denied'')\<rparr>,
       \<lparr>path = ''d/b'', info = Some (FileInfo False), err = None\<rparr>,
       \<lparr>path = ''d/c'', info = None, err = Some (PathError ''lstat d/c: permission denied'')\<rparr>]"
    by code_simp
  have "length (root_listing (\<lambda>_. False) slash_join ''d'' (Inr broken_tree)) < 5"
    unfolding l by simp
  from access_errors_are_entries[OF this] show ?thesis
    unfolding l .
qed

section \<open>Where Stop takes effect\<close>

text \<open>
  After a Step that returned true, with no earlier Stop pending, a Stop makes the next
  Step return false, whether or not the goroutine runs in between. Every Walker that
  Walk returns is in that state after its first Step, and stays in it through SkipDir and
  through every Step that returns true.
\<close>

lemma halts_walk:
  "k (Some (errors_New ''stop'')) = Done \<Longrightarrow> (\<And>r. halts (k r)) \<Longrightarrow> halts (walk jn p n k)"
  "k (Some (errors_New ''stop'')) = Done \<Longrightarrow> (\<And>r. halts (k r)) \<Longrightarrow> halts (walk_names jn p cs k)"
proof (induction jn p n k and jn p cs k rule: walk_walk_names.induct)
  case (1 jn p k)
  then show ?case by (simp add: recv_def)
next
  case (2 jn p e cs k)
  then show ?case by (simp add: recv_def errors_New_def)
next
  case (3 jn p k)
  then show ?case by simp
next
  case (4 jn p nm e rest k)
  then show ?case by (simp add: recv_def errors_New_def)
next
  case (5 jn p nm n rest k)
  have rest: "halts (walk_names jn p rest k)"
    using 5(2)[of None] 5(4,5) by simp
  show ?case
    unfolding walk_names.simps
    by (rule 5(3)) (use 5(4,5) rest in \<open>simp_all add: errors_New_def\<close>)
qed

lemma halts_filepath_Walk: "halts (filepath_Walk jn root r (\<lambda>_. Done))"
  by (cases r) (simp_all add: filepath_Walk_def recv_def errors_New_def halts_walk)

lemma stoppable_first_Step:
  "\<exists>w'. Step (Walk jn root r) = Returns (True, w') \<and> stoppable w'"
proof -
  have h: "halts (filepath_Walk jn root r (\<lambda>_. Done))" by (rule halts_filepath_Walk)
  obtain it k where l: "filepath_Walk jn root r (\<lambda>_. Done) = Yield it k"
  proof (cases r)
    case (Inl e)
    then show ?thesis using that by (simp add: filepath_Walk_def recv_def)
  next
    case (Inr n)
    then show ?thesis using that by (cases n) (simp_all add: filepath_Walk_def recv_def)
  qed
  from h l have "k (Some (errors_New ''stop'')) = Done" "\<forall>r. halts (k r)" by simp_all
  then show ?thesis
    by (simp add: Walk_def l Step_def recv_itemch_def sched_def stoppable_def)
qed

lemma stoppable_Step:
  assumes "stoppable w" "Step w = Returns (True, w')"
  shows "stoppable w'"
proof -
  from assms(1) obtain k where w: "itemch w = Receiving k" "ok w" "retch w = None"
    and k: "\<forall>r. halts (k r)"
    unfolding stoppable_def by blast
  from k have h: "halts (k (ret w))" by simp
  show ?thesis
  proof (cases "k (ret w)")
    case Done
    with assms(2) show ?thesis using Step_Receiving[OF w] by simp
  next
    case (Yield it k')
    with h have "k' (Some (errors_New ''stop'')) = Done" "\<forall>r. halts (k' r)" by simp_all
    moreover have "w' = w\<lparr>itemch := Receiving k', cur := it, ok := True, retch := None, ret := None\<rparr>"
      using assms(2) Step_Receiving[OF w] Yield by simp
    ultimately show ?thesis by (simp add: stoppable_def)
  qed
qed

lemma stoppable_SkipDir:
  assumes "stoppable w" "Walker_SkipDir w = Returns w'"
  shows "stoppable w'"
  using assms
  by (auto simp: stoppable_def Walker_SkipDir_def split: option.splits if_splits)

lemma Stop_then_Step:
  assumes "stoppable w"
  shows "\<exists>w1 w2. Stop w = Returns w1 \<and> Step w1 = Returns (False, w2) \<and>
           Step (sched w1) = Returns (False, w2)"
proof -
  from assms obtain k where w: "itemch w = Receiving k" "ok w" "retch w = None"
    and k: "k (Some (errors_New ''stop'')) = Done"
    unfolding stoppable_def by blast
  let ?w1 = "w\<lparr>retch := Some (Some (errors_New ''stop''))\<rparr>"
  have s: "Stop w = Returns ?w1" using w by (simp add: Stop_def)
  have "\<exists>w2. Step ?w1 = Returns (False, w2)"
    using w k by (simp add: Step_def send_retch_def recv_itemch_def sched_def)
  then show ?thesis using s Step_sched[of ?w1] by auto
qed

lemma Stop_then_Step_example:
  "observe [CallStep, CallStep, CallStop, CallStep, CallStep]
     (Walk slash_join ''d'' (Inr example_tree)) =
   Returns [(True, ''d'', Some (FileInfo True), None),
            (True, ''d/a'', Some (FileInfo True), None),
            (False, [], None, None), (False, [], None, None)]"
  by code_simp

section \<open>Skipping a directory\<close>

lemma with_ancestors_superset:
  "(a, it) \<in> set (with_ancestors jn anc p n) \<Longrightarrow> set anc \<subseteq> set a"
proof (induction jn anc p n arbitrary: a it rule: with_ancestors.induct)
  case (1 jn anc p)
  then show ?case by simp
next
  case (2 jn anc p e cs)
  show ?case
  proof (cases "(a, it) = (anc, \<lparr>path = p, info = Some (FileInfo True), err = e\<rparr>)")
    case True
    then show ?thesis by simp
  next
    case False
    with 2(2) have e: "e = None" by (auto split: if_splits)
    from False 2(2) e obtain nm c where c: "(nm, c) \<in> set (sort_key fst cs)"
      and mem: "(a, it) \<in> set (case c of
                          Inl e' \<Rightarrow> [(\<lparr>path = p, info = Some (FileInfo True), err = e\<rparr> # anc,
                                     \<lparr>path = jn p nm, info = None, err = Some e'\<rparr>)]
                        | Inr n \<Rightarrow> with_ancestors jn (\<lparr>path = p, info = Some (FileInfo True), err = e\<rparr> # anc) (jn p nm) n)"
      by auto
    show ?thesis
    proof (cases c)
      case (Inl e')
      with mem show ?thesis by auto
    next
      case (Inr n)
      with mem have "set (\<lparr>path = p, info = Some (FileInfo True), err = e\<rparr> # anc) \<subseteq> set a"
        using 2(1)[OF _ c refl Inr] e by auto
      then show ?thesis by auto
    qed
  qed
qed

lemma filter_kept_none:
  assumes "list_ex sk anc"
  shows "filter (kept sk) (with_ancestors jn anc p n) = []"
proof -
  have "\<not> kept sk x" if "x \<in> set (with_ancestors jn anc p n)" for x
  proof -
    obtain a it where x: "x = (a, it)" by (cases x)
    with that have "set anc \<subseteq> set a" using with_ancestors_superset by blast
    with assms show ?thesis by (auto simp: kept_def x list_ex_iff)
  qed
  then show ?thesis by (simp add: filter_empty_conv)
qed

lemma map_snd_filter_concat:
  "map snd (filter P (concat (map h xs))) = concat (map (\<lambda>x. map snd (filter P (h x))) xs)"
  by (induction xs) simp_all

lemma listing_filter:
  "\<not> list_ex sk anc \<Longrightarrow>
   listing sk jn p n = map snd (filter (kept sk) (with_ancestors jn anc p n))"
proof (induction jn anc p n rule: with_ancestors.induct)
  case (1 jn anc p)
  then show ?case by (simp add: kept_def)
next
  case (2 jn anc p e cs)
  let ?it = "\<lparr>path = p, info = Some (FileInfo True), err = e\<rparr>"
  show ?case
  proof (cases "e \<noteq> None")
    case True
    with 2(2) show ?thesis by (simp add: kept_def)
  next
    case False
    then have e: "e = None" by simp
    show ?thesis
    proof (cases "sk ?it")
      case True
      have "filter (kept sk) (case c of
                          Inl e' \<Rightarrow> [(?it # anc, \<lparr>path = jn p nm, info = None, err = Some e'\<rparr>)]
                        | Inr n \<Rightarrow> with_ancestors jn (?it # anc) (jn p nm) n) = []" for nm c
        using True by (cases c) (simp_all add: filter_kept_none, simp add: kept_def)
      then have "filter (kept sk) (concat (map (\<lambda>(nm, c). case c of
                          Inl e' \<Rightarrow> [(?it # anc, \<lparr>path = jn p nm, info = None, err = Some e'\<rparr>)]
                        | Inr n \<Rightarrow> with_ancestors jn (?it # anc) (jn p nm) n) (sort_key fst cs))) = []"
        by (auto simp: filter_empty_conv)
      with True 2(2) show ?thesis unfolding e by (simp add: kept_def)
    next
      case nsk: False
      let ?f = "\<lambda>(nm, c). case c of Inl e' \<Rightarrow> [\<lparr>path = jn p nm, info = None, err = Some e'\<rparr>]
                        | Inr n \<Rightarrow> listing sk jn (jn p nm) n"
      let ?h = "\<lambda>(nm, c). case c of
                          Inl e' \<Rightarrow> [(?it # anc, \<lparr>path = jn p nm, info = None, err = Some e'\<rparr>)]
                        | Inr n \<Rightarrow> with_ancestors jn (?it # anc) (jn p nm) n"
      have anc': "\<not> list_ex sk (?it # anc)" using nsk 2(2) by simp
      have pt: "?f x = map snd (filter (kept sk) (?h x))"
        if "x \<in> set (sort_key fst cs)" for x
      proof -
        obtain nm c where x: "x = (nm, c)" by (cases x)
        show ?thesis
        proof (cases c)
          case (Inl e')
          then show ?thesis using anc' by (simp add: kept_def x)
        next
          case (Inr n)
          then show ?thesis using 2(1)[OF False that[unfolded x] refl Inr anc'] by (simp add: x)
        qed
      qed
      have "concat (map ?f (sort_key fst cs)) =
            concat (map (\<lambda>x. map snd (filter (kept sk) (?h x))) (sort_key fst cs))"
        by (rule arg_cong[where f = concat], rule map_cong[OF refl], rule pt)
      also have "\<dots> = map snd (filter (kept sk) (concat (map ?h (sort_key fst cs))))"
        by (rule map_snd_filter_concat[symmetric])
      finally have body: "concat (map ?f (sort_key fst cs)) =
            map snd (filter (kept sk) (concat (map ?h (sort_key fst cs))))" .
      have c: "\<not> (e \<noteq> None \<or> sk ?it)" using nsk False by blast
      have L: "listing sk jn p (Dir e cs) = ?it # concat (map ?f (sort_key fst cs))"
        by (simp only: listing.simps c if_False)
      have R: "with_ancestors jn anc p (Dir e cs) = (anc, ?it) # concat (map ?h (sort_key fst cs))"
        by (simp only: with_ancestors.simps False if_False)
      have k: "kept sk (anc, ?it)" using 2(2) by (simp add: kept_def)
      show ?thesis
        by (simp only: L R body filter.simps k if_True list.map snd_conv)
    qed
  qed
qed

lemma root_listing_filter:
  "root_listing sk jn root r = map snd (filter (kept sk) (root_with_ancestors jn root r))"
proof (cases r)
  case (Inl e)
  then show ?thesis by (simp add: root_listing_def root_with_ancestors_def kept_def)
next
  case (Inr n)
  have "listing sk jn root n = map snd (filter (kept sk) (with_ancestors jn [] root n))"
    by (rule listing_filter) simp
  with Inr show ?thesis by (simp add: root_listing_def root_with_ancestors_def)
qed

lemma kept_never: "filter (kept (\<lambda>_. False)) xs = xs"
  by (induction xs) (auto simp: kept_def list_ex_iff)

text \<open>
  C3. Whatever directories the caller skips (calling SkipDir when \<open>sk\<close> holds of the
  current entry), the entries delivered are those of the walk with nothing skipped, in the
  same order, without the entries that lie below a skipped directory: after SkipDir the
  next Step yields the first entry that follows the directory's subtree (its next sibling,
  or the next sibling of a directory above it), and nothing below the skipped directory is
  delivered later.
\<close>

theorem skipdir_prunes_descendants:
  assumes "\<forall>it. sk it \<longrightarrow> info it \<noteq> None"
    and "length (root_with_ancestors jn root r) < n"
  shows "drive sk n (Walk jn root r) =
           Some (Returns (map snd (filter (kept sk) (root_with_ancestors jn root r)))) \<and>
         drive (\<lambda>_. False) n (Walk jn root r) =
           Some (Returns (map snd (root_with_ancestors jn root r)))"
proof -
  have len: "length (root_listing sk' jn root r) < n" for sk'
  proof -
    have "length (root_listing sk' jn root r) \<le> length (root_with_ancestors jn root r)"
      unfolding root_listing_filter by simp
    with assms(2) show ?thesis by simp
  qed
  have "drive sk n (Walk jn root r) = Some (Returns (root_listing sk jn root r))"
    by (rule drive_Walk[OF assms(1) len])
  moreover have "drive (\<lambda>_. False) n (Walk jn root r) =
      Some (Returns (root_listing (\<lambda>_. False) jn root r))"
    by (rule drive_Walk[OF _ len]) simp
  ultimately show ?thesis
    by (simp add: root_listing_filter kept_never)
qed

theorem skipdir_prunes_descendants_witness:
  "drive skip_a 5 (Walk slash_join ''d'' (Inr example_tree)) =
     Some (Returns
      [\<lparr>path = ''d'', info = Some (FileInfo True), err = None\<rparr>,
       \<lparr>path = ''d/a'', info = Some (FileInfo True), err = None\<rparr>,
       \<lparr>path = ''d/b'', info = Some (FileInfo False), err = None\<rparr>]) \<and>
   drive (\<lambda>_. False) 5 (Walk slash_join ''d'' (Inr example_tree)) =
     Some (Returns
      [\<lparr>path = ''d'', info = Some (FileInfo True), err = None\<rparr>,
       \<lparr>path = ''d/a'', info = Some (FileInfo True), err = None\<rparr>,
       \<lparr>path = ''d/a/x'', info = Some (FileInfo False), err = None\<rparr>,
       \<lparr>path = ''d/b'', info = Some (FileInfo False), err = None\<rparr>])"
proof -
  have s: "\<forall>it. skip_a it \<longrightarrow> info it \<noteq> None" by (simp add: skip_a_def)
  have n: "length (root_with_ancestors slash_join ''d'' (Inr example_tree)) < 5"
    by code_simp
  have a: "map snd (filter (kept skip_a) (root_with_ancestors slash_join ''d'' (Inr example_tree))) =
      [\<lparr>path = ''d'', info = Some (FileInfo True), err = None\<rparr>,
       \<lparr>path = ''d/a'', info = Some (FileInfo True), err = None\<rparr>,
       \<lparr>path = ''d/b'', info = Some (FileInfo False), err = None\<rparr>]"
    by code_simp
  have b: "map snd (root_with_ancestors slash_join ''d'' (Inr example_tree)) =
      [\<lparr>path = ''d'', info = Some (FileInfo True), err = None\<rparr>,
       \<lparr>path = ''d/a'', info = Some (FileInfo True), err = None\<rparr>,
       \<lparr>path = ''d/a/x'', info = Some (FileInfo False), err = None\<rparr>,
       \<lparr>path = ''d/b'', info = Some (FileInfo False), err = None\<rparr>]"
    by code_simp
  from skipdir_prunes_descendants[OF s n] show ?thesis
    unfolding a b .
qed

section \<open>The order of a walk\<close>






















end
